theory Spec2Isabelle
  imports Complex_Main "HOL-Library.Log_Nat"
begin

section \<open>Python values: errors, integers and binary64 floats\<close>

text \<open>
  The module \<^verbatim>\<open>src/image_utils.py\<close> works on Python integers (unbounded, modelled as
  \<open>int\<close>) and Python floats (IEEE 754 binary64).  An exception is a value of
  \<open>py_error\<close>, carrying the message; a function that may raise returns
  \<open>py_error + 'a\<close> with \<open>Inl\<close> for the exception.
\<close>

datatype py_error =
    ValueError string
  | OverflowError string
  | ZeroDivisionError string

text \<open>
  A float is a finite binary64 number, given by its exact rational value, an infinity or
  a NaN.  The two zeros are identified: nothing in the module observes the sign of a zero.
\<close>

datatype py_float = Finite rat | PosInf | NegInf | NaN

subsection \<open>Rounding to binary64\<close>

text \<open>Round to the nearest integer, ties to the even one.\<close>

definition round_half_even :: "rat \<Rightarrow> int" where
  "round_half_even x =
     (let f = \<lfloor>x\<rfloor>; d = x - of_int f in
      if d < 1 / 2 then f
      else if 1 / 2 < d then f + 1
      else if even f then f else f + 1)"

text \<open>
  The binary exponent of a non-zero rational: the \<open>e\<close> with \<open>2^e \<le> |x| < 2^(e+1)\<close>,
  computed from the bit lengths of numerator and denominator.
\<close>

definition bexp :: "rat \<Rightarrow> int" where
  "bexp x =
     (let (p, q) = quotient_of \<bar>x\<bar>;
          d = bitlen p - bitlen q
      in if 2 powi d \<le> \<bar>x\<bar> then d else d - 1)"

text \<open>
  Rounding with 53 significant bits, the least exponent \<open>-1022\<close> (below it the spacing
  stays \<open>2^-1074\<close>: gradual underflow) and no bound on the exponent from above.
\<close>

definition rnd :: "rat \<Rightarrow> rat" where
  "rnd x =
     (if x = 0 then 0
      else let q = max (bexp x) (- 1022) - 52
           in of_int (round_half_even (x / 2 powi q)) * 2 powi q)"

text \<open>The result of an operation whose exact value is \<open>x\<close>: it overflows to an infinity
  when the rounded magnitude reaches \<open>2^1024\<close>.\<close>

definition round_double :: "rat \<Rightarrow> py_float" where
  "round_double x =
     (let y = rnd x in
      if 2 ^ 1024 \<le> \<bar>y\<bar> then (if 0 < x then PosInf else NegInf) else Finite y)"

subsection \<open>The operations the module uses\<close>

text \<open>A float literal such as \<^verbatim>\<open>0.21\<close> is the double nearest to the decimal written.\<close>

definition float_literal :: "rat \<Rightarrow> py_float" where
  "float_literal x = round_double x"

text \<open>\<^verbatim>\<open>a * b\<close> on floats.\<close>

fun float_mul :: "py_float \<Rightarrow> py_float \<Rightarrow> py_float" where
  "float_mul (Finite a) (Finite b) = round_double (a * b)"
| "float_mul NaN _ = NaN"
| "float_mul _ NaN = NaN"
| "float_mul (Finite a) PosInf = (if a = 0 then NaN else if 0 < a then PosInf else NegInf)"
| "float_mul (Finite a) NegInf = (if a = 0 then NaN else if 0 < a then NegInf else PosInf)"
| "float_mul PosInf (Finite b) = (if b = 0 then NaN else if 0 < b then PosInf else NegInf)"
| "float_mul NegInf (Finite b) = (if b = 0 then NaN else if 0 < b then NegInf else PosInf)"
| "float_mul PosInf PosInf = PosInf"
| "float_mul PosInf NegInf = NegInf"
| "float_mul NegInf PosInf = NegInf"
| "float_mul NegInf NegInf = PosInf"

text \<open>\<^verbatim>\<open>a + b\<close> on floats.\<close>

fun float_add :: "py_float \<Rightarrow> py_float \<Rightarrow> py_float" where
  "float_add (Finite a) (Finite b) = round_double (a + b)"
| "float_add NaN _ = NaN"
| "float_add _ NaN = NaN"
| "float_add PosInf NegInf = NaN"
| "float_add NegInf PosInf = NaN"
| "float_add PosInf _ = PosInf"
| "float_add _ PosInf = PosInf"
| "float_add NegInf _ = NegInf"
| "float_add _ NegInf = NegInf"

text \<open>
  The conversion of an integer operand in mixed arithmetic: correctly rounded, and an
  OverflowError when the integer is beyond the range of a double.
\<close>

definition float_of_int :: "int \<Rightarrow> py_error + py_float" where
  "float_of_int n =
     (case round_double (of_int n) of
        Finite y \<Rightarrow> Inr (Finite y)
      | _ \<Rightarrow> Inl (OverflowError ''int too large to convert to float''))"

text \<open>\<^verbatim>\<open>a / b\<close> on two integers: the correctly rounded quotient.\<close>

definition int_truediv :: "int \<Rightarrow> int \<Rightarrow> py_error + py_float" where
  "int_truediv a b =
     (if b = 0 then Inl (ZeroDivisionError ''division by zero'')
      else case round_double (of_int a / of_int b) of
             Finite y \<Rightarrow> Inr (Finite y)
           | _ \<Rightarrow> Inl (OverflowError ''integer division result too large for a float''))"

text \<open>\<^verbatim>\<open>n * x\<close> with an integer on the left and \<^verbatim>\<open>x * n\<close> with it on the right.\<close>

definition int_mul_float :: "int \<Rightarrow> py_float \<Rightarrow> py_error + py_float" where
  "int_mul_float n x =
     (case float_of_int n of Inl e \<Rightarrow> Inl e | Inr nf \<Rightarrow> Inr (float_mul nf x))"

definition float_mul_int :: "py_float \<Rightarrow> int \<Rightarrow> py_error + py_float" where
  "float_mul_int x n =
     (case float_of_int n of Inl e \<Rightarrow> Inl e | Inr nf \<Rightarrow> Inr (float_mul x nf))"

text \<open>Truncation toward zero, and \<^verbatim>\<open>int(x)\<close> on a float.\<close>

definition trunc :: "rat \<Rightarrow> int" where
  "trunc x = (if 0 \<le> x then \<lfloor>x\<rfloor> else \<lceil>x\<rceil>)"

fun int_of_float :: "py_float \<Rightarrow> py_error + int" where
  "int_of_float (Finite x) = Inr (trunc x)"
| "int_of_float NaN = Inl (ValueError ''cannot convert float NaN to integer'')"
| "int_of_float PosInf = Inl (OverflowError ''cannot convert float infinity to integer'')"
| "int_of_float NegInf = Inl (OverflowError ''cannot convert float infinity to integer'')"

section \<open>The functions of image_utils.py\<close>

definition calculate_aspect_ratio :: "int \<Rightarrow> int \<Rightarrow> py_error + py_float" where
  "calculate_aspect_ratio width height =
     (if width \<le> 0 \<or> height \<le> 0
      then Inl (ValueError ''Width and height must be positive integers'')
      else int_truediv width height)"

definition resize_dimensions :: "int \<Rightarrow> int \<Rightarrow> int \<Rightarrow> py_error + (int \<times> int)" where
  "resize_dimensions width height max_size =
     (if width \<le> 0 \<or> height \<le> 0 \<or> max_size \<le> 0
      then Inl (ValueError ''All dimensions must be positive integers'')
      else if width \<le> max_size \<and> height \<le> max_size then Inr (width, height)
      else
        case (if width > height then int_truediv max_size width
              else int_truediv max_size height) of
          Inl e \<Rightarrow> Inl e
        | Inr scale \<Rightarrow>
            (case int_mul_float width scale of
               Inl e \<Rightarrow> Inl e
             | Inr ws \<Rightarrow>
                 (case int_of_float ws of
                    Inl e \<Rightarrow> Inl e
                  | Inr new_width \<Rightarrow>
                      (case int_mul_float height scale of
                         Inl e \<Rightarrow> Inl e
                       | Inr hs \<Rightarrow>
                           (case int_of_float hs of
                              Inl e \<Rightarrow> Inl e
                            | Inr new_height \<Rightarrow> Inr (new_width, new_height))))))"

text \<open>The loop over \<^verbatim>\<open>[(r, 'r'), (g, 'g'), (b, 'b')]\<close>: the first value out of range
  raises, with the name of its channel in the message.\<close>

fun check_channels :: "(int \<times> string) list \<Rightarrow> py_error + unit" where
  "check_channels [] = Inr ()"
| "check_channels ((val, name) # rest) =
     (if \<not> (0 \<le> val \<and> val \<le> 255)
      then Inl (ValueError (name @ '' must be between 0 and 255''))
      else check_channels rest)"

text \<open>\<^verbatim>\<open>0.21 * r + 0.72 * g + 0.07 * b\<close>, evaluated from the left.\<close>

definition luminosity :: "int \<Rightarrow> int \<Rightarrow> int \<Rightarrow> py_error + py_float" where
  "luminosity r g b =
     (case float_mul_int (float_literal (21 / 100)) r of
        Inl e \<Rightarrow> Inl e
      | Inr t1 \<Rightarrow>
          (case float_mul_int (float_literal (72 / 100)) g of
             Inl e \<Rightarrow> Inl e
           | Inr t2 \<Rightarrow>
               (case float_mul_int (float_literal (7 / 100)) b of
                  Inl e \<Rightarrow> Inl e
                | Inr t3 \<Rightarrow> Inr (float_add (float_add t1 t2) t3))))"

definition rgb_to_grayscale :: "int \<Rightarrow> int \<Rightarrow> int \<Rightarrow> py_error + int" where
  "rgb_to_grayscale r g b =
     (case check_channels [(r, ''r''), (g, ''g''), (b, ''b'')] of
        Inl e \<Rightarrow> Inl e
      | Inr _ \<Rightarrow>
          (case luminosity r g b of
             Inl e \<Rightarrow> Inl e
           | Inr s \<Rightarrow> int_of_float s))"

text \<open>The optional arguments \<^verbatim>\<open>min_width\<close> and \<^verbatim>\<open>min_height\<close> are \<open>None\<close> when
  the caller leaves them out; both default to 1.\<close>

definition is_valid_resolution ::
  "int \<Rightarrow> int \<Rightarrow> int option \<Rightarrow> int option \<Rightarrow> py_error + bool" where
  "is_valid_resolution width height min_width_arg min_height_arg =
     (let min_width = (case min_width_arg of None \<Rightarrow> 1 | Some v \<Rightarrow> v);
          min_height = (case min_height_arg of None \<Rightarrow> 1 | Some v \<Rightarrow> v)
      in Inr (width \<ge> min_width \<and> height \<ge> min_height))"

section \<open>Quantities named in the statements\<close>

text \<open>The exponent of the last place of the double nearest to \<open>x\<close>.\<close>

definition qexp :: "rat \<Rightarrow> int" where
  "qexp x = max (bexp x) (- 1022) - 52"

text \<open>The least magnitude that rounds to an infinity, halfway between the largest finite
  double and \<open>2^1024\<close>; and the largest finite double.\<close>

definition dbl_limit :: rat where
  "dbl_limit = 2 ^ 1024 - 2 ^ 970"

definition dbl_max :: rat where
  "dbl_max = 2 ^ 1024 - 2 ^ 971"

text \<open>The range of a colour channel.\<close>

definition channel_ok :: "int \<Rightarrow> bool" where
  "channel_ok c = (0 \<le> c \<and> c \<le> 255)"

text \<open>
  The weighted sum as the specification words it: \<^verbatim>\<open>0.21*r + 0.72*g + 0.07*b\<close> in
  floating point, every literal, product and sum rounded to the nearest double.
\<close>

definition spec_weighted_sum :: "int \<Rightarrow> int \<Rightarrow> int \<Rightarrow> rat" where
  "spec_weighted_sum r g b =
     rnd (rnd (rnd (rnd (21 / 100) * of_int r) + rnd (rnd (72 / 100) * of_int g))
          + rnd (rnd (7 / 100) * of_int b))"

text \<open>
  The scaling as the specification words it: \<open>scale\<close> is \<^verbatim>\<open>max_size / width\<close> when
  \<open>width > height\<close> and \<^verbatim>\<open>max_size / height\<close> otherwise (so a tie takes the height), and the
  pair is \<^verbatim>\<open>(int(width * scale), int(height * scale))\<close>, each integer converted to a double
  and each operation rounded.
\<close>

definition spec_scale :: "int \<Rightarrow> int \<Rightarrow> int \<Rightarrow> rat" where
  "spec_scale width height max_size =
     (if width > height then rnd (of_int max_size / of_int width)
      else rnd (of_int max_size / of_int height))"

definition spec_scaled_pair :: "int \<Rightarrow> int \<Rightarrow> int \<Rightarrow> int \<times> int" where
  "spec_scaled_pair width height max_size =
     (let scale = spec_scale width height max_size
      in (trunc (rnd (rnd (of_int width) * scale)), trunc (rnd (rnd (of_int height) * scale))))"

section \<open>Rounding: exponent, monotonicity, error bound\<close>

lemma rhe_of_int: "round_half_even (of_int n) = n"
  by (simp add: round_half_even_def)

lemma rhe_cases: "round_half_even x = \<lfloor>x\<rfloor> \<or> round_half_even x = \<lfloor>x\<rfloor> + 1"
  by (simp add: round_half_even_def Let_def)

lemma rhe_mono: "x \<le> y \<Longrightarrow> round_half_even x \<le> round_half_even y"
proof -
  assume xy: "x \<le> y"
  have fl: "\<lfloor>x\<rfloor> \<le> \<lfloor>y\<rfloor>" using xy by (rule floor_mono)
  show ?thesis
  proof (cases "\<lfloor>x\<rfloor> = \<lfloor>y\<rfloor>")
    case True
    then show ?thesis using xy
      by (auto simp add: round_half_even_def Let_def)
  next
    case False
    then have "\<lfloor>x\<rfloor> + 1 \<le> \<lfloor>y\<rfloor>" using fl by simp
    moreover have "round_half_even x \<le> \<lfloor>x\<rfloor> + 1" using rhe_cases [of x] by auto
    moreover have "\<lfloor>y\<rfloor> \<le> round_half_even y" using rhe_cases [of y] by auto
    ultimately show ?thesis by linarith
  qed
qed

lemma rhe_err: "\<bar>of_int (round_half_even x) - x\<bar> \<le> 1 / 2"
proof -
  have "of_int \<lfloor>x\<rfloor> \<le> x" "x < of_int \<lfloor>x\<rfloor> + 1" by linarith+
  then show ?thesis
    by (auto simp add: round_half_even_def Let_def abs_le_iff)
qed

lemma p2_pos: "0 < (2::rat) powi e"
  by simp

lemma p2_add: "(2::rat) powi (a + b) = 2 powi a * 2 powi b"
  by (simp add: power_int_add)

lemma p2_diff: "(2::rat) powi (a - b) = 2 powi a / 2 powi b"
  by (simp add: power_int_diff)

lemma p2_le: "a \<le> b \<Longrightarrow> (2::rat) powi a \<le> 2 powi b"
  by (rule power_int_increasing) simp_all

lemma p2_less: "a < b \<Longrightarrow> (2::rat) powi a < 2 powi b"
  by (rule power_int_strict_increasing) simp_all

lemma p2_less_imp: "(2::rat) powi a < 2 powi b \<Longrightarrow> a < b"
  using p2_le [of b a] by (cases "a < b") auto

lemma bitlen_rat_bounds:
  assumes "0 < p"
  shows "(2::rat) powi (bitlen p - 1) \<le> of_int p" and "of_int p < (2::rat) powi (bitlen p)"
proof -
  have b1: "1 \<le> bitlen p" using assms bitlen_eq_zero_iff [of p] bitlen_nonneg [of p]
    by (cases "bitlen p = 0") auto
  have "(2::int) ^ nat (bitlen p - 1) \<le> p" using bitlen_bounds [OF assms] by simp
  then have "of_int ((2::int) ^ nat (bitlen p - 1)) \<le> (of_int p :: rat)"
    by (simp only: of_int_le_iff)
  then show "(2::rat) powi (bitlen p - 1) \<le> of_int p"
    using b1 by (simp add: power_int_nonneg_exp)
  have "p < (2::int) ^ nat (bitlen p)" using bitlen_bounds [OF assms] by simp
  then have "(of_int p :: rat) < of_int ((2::int) ^ nat (bitlen p))"
    by (simp only: of_int_less_iff)
  then show "of_int p < (2::rat) powi (bitlen p)"
    using b1 by (simp add: power_int_nonneg_exp)
qed

lemma bexp_bounds:
  assumes "x \<noteq> 0"
  shows "2 powi (bexp x) \<le> \<bar>x\<bar>" and "\<bar>x\<bar> < 2 powi (bexp x + 1)"
proof -
  obtain p q where pq: "quotient_of \<bar>x\<bar> = (p, q)" by (cases "quotient_of \<bar>x\<bar>")
  have q: "0 < q" using pq quotient_of_denom_pos by blast
  have xe: "\<bar>x\<bar> = of_int p / of_int q" using pq quotient_of_div by blast
  have "0 < \<bar>x\<bar>" using assms by simp
  then have "0 < (of_int p :: rat)" using xe q by (simp add: zero_less_divide_iff)
  then have p: "0 < p" by simp
  define d where "d = bitlen p - bitlen q"
  note bp = bitlen_rat_bounds [OF p] and bq = bitlen_rat_bounds [OF q]
  have qpos: "0 < (of_int q :: rat)" using q by simp
  have "2 powi (d - 1) * of_int q < (2::rat) powi (d - 1) * 2 powi (bitlen q)"
    using bq(2) by (simp add: mult_strict_left_mono)
  also have "\<dots> = 2 powi (bitlen p - 1)" by (simp add: d_def flip: p2_add)
  also have "\<dots> \<le> of_int p" by (rule bp(1))
  finally have lo: "2 powi (d - 1) < \<bar>x\<bar>" using qpos by (simp add: xe pos_less_divide_eq)
  have "of_int p < (2::rat) powi (bitlen p)" by (rule bp(2))
  also have "\<dots> = 2 powi (d + 1) * 2 powi (bitlen q - 1)" by (simp add: d_def flip: p2_add)
  also have "\<dots> \<le> 2 powi (d + 1) * of_int q"
    using bq(1) by (simp add: mult_left_mono)
  finally have hi: "\<bar>x\<bar> < 2 powi (d + 1)" using qpos by (simp add: xe pos_divide_less_eq)
  have be: "bexp x = (if 2 powi d \<le> \<bar>x\<bar> then d else d - 1)"
    by (simp add: bexp_def pq d_def Let_def)
  show "2 powi (bexp x) \<le> \<bar>x\<bar>" using lo by (simp add: be)
  show "\<bar>x\<bar> < 2 powi (bexp x + 1)" using hi by (auto simp add: be)
qed

lemma bexp_bounds_pos:
  assumes "0 < x"
  shows "2 powi (bexp x) \<le> x" and "x < 2 powi (bexp x + 1)"
proof -
  have nz: "x \<noteq> 0" using assms by (rule less_imp_neq [THEN not_sym])
  have ax: "\<bar>x\<bar> = x" using assms by (rule abs_of_pos)
  show "2 powi (bexp x) \<le> x" using bexp_bounds(1) [OF nz] by (simp only: ax)
  show "x < 2 powi (bexp x + 1)" using bexp_bounds(2) [OF nz] by (simp only: ax)
qed

lemma bexp_unique:
  assumes "2 powi e \<le> \<bar>x\<bar>" and "\<bar>x\<bar> < 2 powi (e + 1)"
  shows "bexp x = e"
proof -
  have "0 < \<bar>x\<bar>" using p2_pos [of e] assms(1) by (rule less_le_trans)
  then have nz: "x \<noteq> 0" by simp
  have "2 powi e < (2::rat) powi (bexp x + 1)"
    using assms(1) bexp_bounds(2) [OF nz] by (rule le_less_trans)
  then have a: "e < bexp x + 1" by (rule p2_less_imp)
  have "2 powi (bexp x) < (2::rat) powi (e + 1)"
    using bexp_bounds(1) [OF nz] assms(2) by (rule le_less_trans)
  then have b: "bexp x < e + 1" by (rule p2_less_imp)
  show ?thesis using a b by simp
qed

lemma bexp_unique_pos:
  assumes "0 < x" and "2 powi e \<le> x" and "x < 2 powi (e + 1)"
  shows "bexp x = e"
proof -
  have ax: "\<bar>x\<bar> = x" using assms(1) by (rule abs_of_pos)
  show ?thesis by (rule bexp_unique) (simp_all only: ax assms)
qed

lemma bexp_mono:
  assumes "0 < x" and "x \<le> y"
  shows "bexp x \<le> bexp y"
proof -
  have "2 powi (bexp x) \<le> \<bar>x\<bar>" using assms by (intro bexp_bounds(1)) simp
  also have "\<dots> \<le> \<bar>y\<bar>" using assms by simp
  also have "\<dots> < 2 powi (bexp y + 1)" using assms by (intro bexp_bounds(2)) simp
  finally have "bexp x < bexp y + 1" by (rule p2_less_imp)
  then show ?thesis by simp
qed

lemma rnd_eq: "x \<noteq> 0 \<Longrightarrow> rnd x = of_int (round_half_even (x / 2 powi (qexp x))) * 2 powi (qexp x)"
  by (simp add: rnd_def qexp_def Let_def)

lemma rnd_0: "rnd 0 = 0"
  by (simp add: rnd_def)

lemma rnd_nonneg:
  assumes "0 \<le> x"
  shows "0 \<le> rnd x"
proof (cases "x = 0")
  case True
  then show ?thesis by (simp add: rnd_0)
next
  case False
  have "0 \<le> x / 2 powi (qexp x)" using assms by simp
  then have "round_half_even 0 \<le> round_half_even (x / 2 powi (qexp x))" by (rule rhe_mono)
  then have "0 \<le> round_half_even (x / 2 powi (qexp x))"
    using rhe_of_int [of 0] by simp
  then show ?thesis using False by (simp add: rnd_eq)
qed

lemma rnd_upper:
  assumes "0 < x"
  shows "rnd x \<le> 2 powi (qexp x + 53)"
proof -
  have nz: "x \<noteq> 0" using assms by simp
  have "x < 2 powi (bexp x + 1)" using bexp_bounds(2) [OF nz] assms by simp
  also have "\<dots> \<le> 2 powi (qexp x + 53)" by (rule p2_le) (simp add: qexp_def)
  finally have "x / 2 powi (qexp x) \<le> 2 powi (qexp x + 53) / 2 powi (qexp x)"
    by (simp add: divide_right_mono)
  also have "\<dots> = of_int (2 ^ 53)" by (simp add: p2_add)
  finally have "round_half_even (x / 2 powi (qexp x)) \<le> round_half_even (of_int (2 ^ 53))"
    by (rule rhe_mono)
  then have "round_half_even (x / 2 powi (qexp x)) \<le> 2 ^ 53" by (simp only: rhe_of_int)
  then have "(of_int (round_half_even (x / 2 powi (qexp x))) :: rat) \<le> of_int (2 ^ 53)"
    by (simp only: of_int_le_iff)
  then have "of_int (round_half_even (x / 2 powi (qexp x))) * 2 powi (qexp x)
      \<le> (of_int (2 ^ 53) :: rat) * 2 powi (qexp x)"
    by (rule mult_right_mono) simp
  also have "\<dots> = 2 powi (qexp x + 53)" by (simp add: p2_add)
  finally show ?thesis by (simp only: rnd_eq [OF nz])
qed

lemma rnd_lower:
  assumes "0 < x" and "- 1022 \<le> bexp x"
  shows "2 powi (bexp x) \<le> rnd x"
proof -
  have nz: "x \<noteq> 0" using assms by simp
  have q: "qexp x = bexp x - 52" using assms(2) by (simp add: qexp_def)
  have "2 powi (bexp x) \<le> x" using bexp_bounds(1) [OF nz] assms by simp
  then have "2 powi (bexp x) / 2 powi (qexp x) \<le> x / 2 powi (qexp x)"
    by (simp add: divide_right_mono)
  moreover have "2 powi (bexp x) / 2 powi (qexp x) = (of_int (2 ^ 52) :: rat)"
    by (simp add: q flip: p2_diff)
  ultimately have "(of_int (2 ^ 52) :: rat) \<le> x / 2 powi (qexp x)" by simp
  then have "round_half_even (of_int (2 ^ 52)) \<le> round_half_even (x / 2 powi (qexp x))"
    by (rule rhe_mono)
  then have "2 ^ 52 \<le> round_half_even (x / 2 powi (qexp x))" by (simp only: rhe_of_int)
  then have "(of_int (2 ^ 52) :: rat) \<le> of_int (round_half_even (x / 2 powi (qexp x)))"
    by (simp only: of_int_le_iff)
  then have "(of_int (2 ^ 52) :: rat) * 2 powi (qexp x)
      \<le> of_int (round_half_even (x / 2 powi (qexp x))) * 2 powi (qexp x)"
    by (rule mult_right_mono) simp
  moreover have "(of_int (2 ^ 52) :: rat) * 2 powi (qexp x) = 2 powi (bexp x)"
    using p2_add [of 52 "bexp x - 52"] by (simp add: q)
  ultimately show ?thesis by (simp only: rnd_eq [OF nz])
qed

lemma rnd_mono:
  assumes "0 \<le> x" and "x \<le> y"
  shows "rnd x \<le> rnd y"
proof (cases "x = 0")
  case True
  then show ?thesis using assms rnd_nonneg [of y] by (simp add: rnd_0)
next
  case False
  then have x: "0 < x" and y: "0 < y" using assms by simp_all
  have be: "bexp x \<le> bexp y" using x assms(2) by (rule bexp_mono)
  then have qe: "qexp x \<le> qexp y" by (simp add: qexp_def)
  show ?thesis
  proof (cases "qexp x = qexp y")
    case True
    have "x / 2 powi (qexp y) \<le> y / 2 powi (qexp y)"
      using assms(2) by (simp add: divide_right_mono)
    then have "round_half_even (x / 2 powi (qexp y)) \<le> round_half_even (y / 2 powi (qexp y))"
      by (rule rhe_mono)
    then have "(of_int (round_half_even (x / 2 powi (qexp y))) :: rat)
        \<le> of_int (round_half_even (y / 2 powi (qexp y)))"
      by (simp only: of_int_le_iff)
    then have "of_int (round_half_even (x / 2 powi (qexp y))) * 2 powi (qexp y)
        \<le> of_int (round_half_even (y / 2 powi (qexp y))) * (2::rat) powi (qexp y)"
      by (rule mult_right_mono) simp
    then show ?thesis using x y True by (simp add: rnd_eq)
  next
    case False
    then have lt: "qexp x < qexp y" using qe by simp
    then have ey: "- 1022 \<le> bexp y" and qy: "qexp x + 53 \<le> bexp y"
      unfolding qexp_def by linarith+
    have "rnd x \<le> 2 powi (qexp x + 53)" using x by (rule rnd_upper)
    also have "\<dots> \<le> 2 powi (bexp y)" using qy by (rule p2_le)
    also have "\<dots> \<le> rnd y" using y ey by (rule rnd_lower)
    finally show ?thesis .
  qed
qed

lemma rnd_err:
  assumes "x \<noteq> 0"
  shows "\<bar>rnd x - x\<bar> \<le> 2 powi (qexp x - 1)"
proof -
  let ?p = "(2::rat) powi (qexp x)"
  have pp: "0 < ?p" by simp
  have "\<bar>rnd x - x\<bar> = \<bar>(of_int (round_half_even (x / ?p)) - x / ?p) * ?p\<bar>"
    using assms by (simp add: rnd_eq left_diff_distrib)
  also have "\<dots> = \<bar>of_int (round_half_even (x / ?p)) - x / ?p\<bar> * ?p"
    by (simp add: abs_mult)
  also have "\<dots> \<le> (1 / 2) * ?p"
    using rhe_err [of "x / ?p"] by (intro mult_right_mono) simp_all
  also have "\<dots> = 2 powi (qexp x - 1)" by (simp add: p2_diff)
  finally show ?thesis .
qed

lemma rnd_of_int:
  assumes "0 \<le> n" and "n \<le> 2 ^ 53"
  shows "rnd (of_int n) = of_int n"
proof (cases "n = 0")
  case True
  then show ?thesis by (simp add: rnd_0)
next
  case False
  let ?x = "of_int n :: rat"
  have n: "0 < n" using assms False by simp
  then have nz: "?x \<noteq> 0" and ax: "\<bar>?x\<bar> = ?x" by simp_all
  have "2 powi 0 \<le> ?x" using n by simp
  also have "\<dots> < 2 powi (bexp ?x + 1)" using bexp_bounds(2) [OF nz] by (simp only: ax)
  finally have b0: "0 \<le> bexp ?x" using p2_less_imp by fastforce
  have "?x \<le> of_int (2 ^ 53)" using assms(2) by (simp only: of_int_le_iff)
  then have le53: "?x \<le> 2 powi 53" by simp
  have "2 powi (bexp ?x) \<le> ?x" using bexp_bounds(1) [OF nz] by (simp only: ax)
  also have "?x < 2 powi 54" using le53 by simp
  finally have b53: "bexp ?x \<le> 53" using p2_less_imp by fastforce
  have q: "qexp ?x = bexp ?x - 52" using b0 by (simp add: qexp_def)
  show ?thesis
  proof (cases "bexp ?x = 53")
    case True
    have "2 powi 53 \<le> ?x" using bexp_bounds(1) [OF nz] by (simp only: ax True)
    then have xe: "?x = 2 powi 53" using le53 by simp
    have q1: "qexp ?x = 1" by (simp add: q True)
    have "?x / 2 powi 1 = 2 powi 53 / 2 powi 1" by (simp only: xe)
    also have "\<dots> = of_int (2 ^ 52)" by simp
    finally have r: "round_half_even (?x / 2 powi 1) = 2 ^ 52"
      by (simp only: rhe_of_int)
    have "rnd ?x = of_int (round_half_even (?x / 2 powi (qexp ?x))) * 2 powi (qexp ?x)"
      by (rule rnd_eq [OF nz])
    also have "\<dots> = of_int (2 ^ 52) * 2 powi 1" by (simp only: r q1)
    also have "\<dots> = 2 powi 53" by simp
    finally show ?thesis by (simp only: xe)
  next
    case False
    then have k: "0 \<le> 52 - bexp ?x" using b53 by simp
    have "?x / 2 powi (qexp ?x) = ?x * 2 powi (52 - bexp ?x)"
      by (simp add: q power_int_diff)
    also have "\<dots> = of_int (n * 2 ^ nat (52 - bexp ?x))"
      using k by (simp add: power_int_nonneg_exp)
    finally have "round_half_even (?x / 2 powi (qexp ?x)) = n * 2 ^ nat (52 - bexp ?x)"
      by (simp only: rhe_of_int)
    then have "rnd ?x = of_int (n * 2 ^ nat (52 - bexp ?x)) * 2 powi (qexp ?x)"
      by (simp only: rnd_eq [OF nz])
    also have "\<dots> = ?x * (2 powi (52 - bexp ?x) * 2 powi (qexp ?x))"
      using k by (simp add: power_int_nonneg_exp)
    also have "2 powi (52 - bexp ?x) * (2::rat) powi (qexp ?x) = 1"
      by (simp add: q flip: p2_add)
    finally show ?thesis by simp
  qed
qed

subsection \<open>Evaluating a rounding at a given exponent\<close>

lemma rhe_eqI:
  assumes "\<bar>of_int n - z\<bar> < 1 / 2"
  shows "round_half_even z = n"
proof -
  have "\<bar>of_int (round_half_even z) - z\<bar> \<le> 1 / 2" by (rule rhe_err)
  with assms have "\<bar>(of_int (round_half_even z) :: rat) - of_int n\<bar> < 1" by linarith
  then have "\<bar>(of_int (round_half_even z - n) :: rat)\<bar> < 1" by simp
  then have "\<bar>round_half_even z - n\<bar> < 1" by (simp only: flip: of_int_abs)
  then show ?thesis by simp
qed

lemma rhe_tieI:
  assumes "of_int n - z = 1 / 2 \<or> z - of_int n = 1 / 2" and "even n"
  shows "round_half_even z = n"
proof -
  from assms(1) show ?thesis
  proof
    assume a: "of_int n - z = 1 / 2"
    then have z: "z = of_int (n - 1) + 1 / 2" by simp
    have "\<lfloor>z\<rfloor> = n - 1" unfolding z by (simp add: floor_unique)
    then show ?thesis using assms(2) z by (simp add: round_half_even_def Let_def)
  next
    assume a: "z - of_int n = 1 / 2"
    then have z: "z = of_int n + 1 / 2" by simp
    have "\<lfloor>z\<rfloor> = n" unfolding z by (simp add: floor_unique)
    then show ?thesis using assms(2) z by (simp add: round_half_even_def Let_def)
  qed
qed

lemma rnd_eqI:
  assumes "2 powi e \<le> x" and "x < 2 powi (e + 1)"
    and "\<bar>of_int n - x / 2 powi (max e (- 1022) - 52)\<bar> < 1 / 2"
  shows "rnd x = of_int n * 2 powi (max e (- 1022) - 52)"
proof -
  have x: "0 < x" using p2_pos [of e] assms(1) by (rule less_le_trans)
  then have "bexp x = e" using assms(1,2) by (intro bexp_unique) simp_all
  then have q: "qexp x = max e (- 1022) - 52" by (simp add: qexp_def)
  have "round_half_even (x / 2 powi (qexp x)) = n" unfolding q using assms(3) by (rule rhe_eqI)
  then show ?thesis using x by (simp add: rnd_eq q)
qed

lemma rnd_tieI:
  assumes "2 powi e \<le> x" and "x < 2 powi (e + 1)"
    and "of_int n - x / 2 powi (max e (- 1022) - 52) = 1 / 2
         \<or> x / 2 powi (max e (- 1022) - 52) - of_int n = 1 / 2"
    and "even n"
  shows "rnd x = of_int n * 2 powi (max e (- 1022) - 52)"
proof -
  have x: "0 < x" using p2_pos [of e] assms(1) by (rule less_le_trans)
  then have "bexp x = e" using assms(1,2) by (intro bexp_unique) simp_all
  then have q: "qexp x = max e (- 1022) - 52" by (simp add: qexp_def)
  have "round_half_even (x / 2 powi (qexp x)) = n" unfolding q using assms(3,4) by (rule rhe_tieI)
  then show ?thesis using x by (simp add: rnd_eq q)
qed

lemma rnd_half: "rnd (1 / 2) = 1 / 2"
  using rnd_eqI [of "- 1" "1 / 2" "2 ^ 52"] by simp

lemma rnd_top: "rnd (2 ^ 1024 - 2 ^ 970) = 2 ^ 1024"
  using rnd_tieI [of 1023 "2 ^ 1024 - 2 ^ 970" "2 ^ 53"] by simp

lemma rnd_2_1023: "rnd (2 ^ 1023) = 2 ^ 1023"
  using rnd_eqI [of 1023 "2 ^ 1023" "2 ^ 52"] by simp

subsection \<open>Known values\<close>

text \<open>
  Three roundings every user of doubles has met: \<^verbatim>\<open>0.1\<close> is
  \<open>3602879701896397 / 2^55\<close>, \<^verbatim>\<open>0.1 + 0.2\<close> is \<^verbatim>\<open>0.30000000000000004\<close>, and
  \<^verbatim>\<open>49 * (1 / 49)\<close> is \<^verbatim>\<open>0.9999999999999999\<close>.
\<close>

lemma rnd_one_tenth: "rnd (1 / 10) = 3602879701896397 / 2 ^ 55"
  using rnd_eqI [of "- 4" "1 / 10" 7205759403792794] by simp

lemma rnd_one_fifth: "rnd (2 / 10) = 3602879701896397 / 2 ^ 54"
  using rnd_eqI [of "- 3" "2 / 10" 7205759403792794] by simp

lemma tenth_plus_fifth: "rnd (rnd (1 / 10) + rnd (2 / 10)) = 5404319552844596 / 2 ^ 54"
proof -
  have "rnd (3602879701896397 / 2 ^ 55 + 3602879701896397 / 2 ^ 54) = 5404319552844596 / 2 ^ 54"
    using rnd_tieI [of "- 2" "3602879701896397 / 2 ^ 55 + 3602879701896397 / 2 ^ 54"
        5404319552844596]
    by simp
  then show ?thesis by (simp only: rnd_one_tenth rnd_one_fifth)
qed

lemma rnd_one_49th: "rnd (1 / 49) = 5882252574524729 / 2 ^ 58"
  using rnd_eqI [of "- 6" "1 / 49" 5882252574524729] by simp

lemma forty_nine_times_49th: "rnd (49 * rnd (1 / 49)) = (2 ^ 53 - 1) / 2 ^ 53"
proof -
  have "rnd (49 * (5882252574524729 / 2 ^ 58)) = (2 ^ 53 - 1) / 2 ^ 53"
    using rnd_eqI [of "- 1" "49 * (5882252574524729 / 2 ^ 58)" "2 ^ 53 - 1"] by simp
  then show ?thesis by (simp only: rnd_one_49th)
qed

subsection \<open>Overflow\<close>

lemma rnd_at_limit:
  assumes "dbl_limit \<le> x"
  shows "2 ^ 1024 \<le> rnd x"
proof -
  have "2 ^ 1024 = rnd dbl_limit" unfolding dbl_limit_def by (rule rnd_top [symmetric])
  also have "\<dots> \<le> rnd x" using assms by (intro rnd_mono) (simp_all add: dbl_limit_def)
  finally show ?thesis .
qed

subsection \<open>The range of finite doubles\<close>

lemma rnd_le_dbl_max:
  assumes "0 \<le> x" and "x < dbl_limit"
  shows "rnd x \<le> dbl_max"
proof (cases "x < 2 ^ 1023")
  case True
  then have "rnd x \<le> rnd (2 ^ 1023)" using assms(1) by (intro rnd_mono) simp_all
  also have "\<dots> = 2 ^ 1023" by (rule rnd_2_1023)
  also have "\<dots> \<le> dbl_max" by (simp add: dbl_max_def)
  finally show ?thesis .
next
  case False
  then have lo: "2 powi 1023 \<le> x" by simp
  have hi: "x < 2 powi (1023 + 1)" using assms(2) by (simp add: dbl_limit_def)
  have x: "x \<noteq> 0" using lo by auto
  have "bexp x = 1023" using lo hi assms(1) by (intro bexp_unique) simp_all
  then have q: "qexp x = 971" by (simp add: qexp_def)
  let ?z = "x / 2 powi 971"
  have "x < (2 ^ 53 - 1 / 2) * 2 powi 971" using assms(2) by (simp add: dbl_limit_def)
  then have "?z < 2 ^ 53 - 1 / 2" by (simp add: pos_divide_less_eq)
  moreover have "\<bar>of_int (round_half_even ?z) - ?z\<bar> \<le> 1 / 2" by (rule rhe_err)
  ultimately have "(of_int (round_half_even ?z) :: rat) < 2 ^ 53" by linarith
  also have "(2 ^ 53 :: rat) = of_int (2 ^ 53)" by simp
  finally have "round_half_even ?z < 2 ^ 53" by (simp only: of_int_less_iff)
  then have "round_half_even ?z \<le> 2 ^ 53 - 1" by simp
  then have "(of_int (round_half_even ?z) :: rat) \<le> of_int (2 ^ 53 - 1)"
    by (simp only: of_int_le_iff)
  then have "of_int (round_half_even ?z) * 2 powi 971 \<le> (of_int (2 ^ 53 - 1) :: rat) * 2 powi 971"
    by (rule mult_right_mono) simp
  also have "\<dots> = dbl_max" by (simp add: dbl_max_def)
  finally have "of_int (round_half_even ?z) * 2 powi 971 \<le> dbl_max" .
  then show ?thesis unfolding rnd_eq [OF x] q .
qed

lemma dbl_max_below_limit: "x \<le> dbl_max \<Longrightarrow> x < dbl_limit"
  by (simp add: dbl_max_def dbl_limit_def)

lemma round_double_finite:
  assumes "0 \<le> x" and "x < dbl_limit"
  shows "round_double x = Finite (rnd x)"
proof -
  have "0 \<le> rnd x" using assms(1) by (rule rnd_nonneg)
  moreover have "rnd x \<le> dbl_max" using assms by (rule rnd_le_dbl_max)
  then have "rnd x < 2 ^ 1024" by (simp add: dbl_max_def)
  ultimately show ?thesis by (simp add: round_double_def Let_def)
qed

lemma round_double_overflow:
  assumes "dbl_limit \<le> x"
  shows "round_double x = PosInf"
proof -
  have "0 < x" using assms by (simp add: dbl_limit_def)
  moreover have "2 ^ 1024 \<le> \<bar>rnd x\<bar>" using rnd_at_limit [OF assms] by simp
  ultimately show ?thesis by (simp add: round_double_def Let_def)
qed

lemma small_below_limit: "x \<le> 2 ^ 53 \<Longrightarrow> x < dbl_limit"
  by (simp add: dbl_limit_def)

lemma float_of_int_exact:
  assumes "0 \<le> n" and "n \<le> 2 ^ 53"
  shows "float_of_int n = Inr (Finite (of_int n))"
proof -
  have "(of_int n :: rat) \<le> of_int (2 ^ 53)" using assms(2) by (simp only: of_int_le_iff)
  then have "(of_int n :: rat) < dbl_limit" by (intro small_below_limit) simp
  then have "round_double (of_int n) = Finite (rnd (of_int n))"
    using assms(1) by (intro round_double_finite) simp_all
  then show ?thesis using assms by (simp add: float_of_int_def rnd_of_int)
qed

lemma rnd_le_of_int:
  assumes "0 \<le> x" and "x \<le> of_int n" and "n \<le> 2 ^ 53"
  shows "rnd x \<le> of_int n"
proof -
  have "0 \<le> (of_int n :: rat)" using assms(1,2) by simp
  then have n: "0 \<le> n" by simp
  have "rnd x \<le> rnd (of_int n)" using assms(1,2) by (rule rnd_mono)
  then show ?thesis using n assms(3) by (simp add: rnd_of_int)
qed

lemma rnd_unit:
  assumes "0 \<le> x" and "x \<le> 1"
  shows "0 \<le> rnd x" and "rnd x \<le> 1"
  using assms rnd_nonneg [of x] rnd_le_of_int [of x 1] by simp_all

section \<open>The weighted sum of the grayscale conversion\<close>

text \<open>One product \<open>c * n\<close> of the weighted sum, for a weight in the unit interval.\<close>

lemma weight_term:
  assumes "0 \<le> c" and "c \<le> 1" and "channel_ok n"
  shows "float_mul_int (Finite c) n = Inr (Finite (rnd (c * of_int n)))"
    and "0 \<le> rnd (c * of_int n)" and "rnd (c * of_int n) \<le> 255"
proof -
  have n: "0 \<le> n" "n \<le> 255" using assms(3) by (simp_all add: channel_ok_def)
  have n': "(0::rat) \<le> of_int n" "(of_int n :: rat) \<le> 255" using n by simp_all
  have lo: "0 \<le> c * of_int n" using assms(1) n'(1) by simp
  have "c * of_int n \<le> 1 * 255" using assms(1,2) n' by (intro mult_mono) simp_all
  then have hi: "c * of_int n \<le> of_int 255" by simp
  show "0 \<le> rnd (c * of_int n)" using lo by (rule rnd_nonneg)
  show "rnd (c * of_int n) \<le> 255" using rnd_le_of_int [OF lo hi] by simp
  have "c * of_int n < dbl_limit" using hi by (intro small_below_limit) simp
  then have "round_double (c * of_int n) = Finite (rnd (c * of_int n))"
    using lo by (intro round_double_finite)
  moreover have "float_of_int n = Inr (Finite (of_int n))"
    using n by (intro float_of_int_exact) simp_all
  ultimately show "float_mul_int (Finite c) n = Inr (Finite (rnd (c * of_int n)))"
    by (simp add: float_mul_int_def)
qed

lemma float_literal_unit:
  assumes "0 \<le> x" and "x \<le> 1"
  shows "float_literal x = Finite (rnd x)"
  unfolding float_literal_def using assms by (intro round_double_finite small_below_limit) simp_all

lemma float_add_small:
  assumes "0 \<le> a" and "0 \<le> b" and "a + b \<le> 2 ^ 53"
  shows "float_add (Finite a) (Finite b) = Finite (rnd (a + b))"
  using assms by (simp add: round_double_finite small_below_limit)

lemma luminosity_ok:
  assumes "channel_ok r" and "channel_ok g" and "channel_ok b"
  shows "luminosity r g b = Inr (Finite (spec_weighted_sum r g b))"
proof -
  note w1 = rnd_unit [of "21 / 100"] and w2 = rnd_unit [of "72 / 100"]
    and w3 = rnd_unit [of "7 / 100"]
  have t1: "float_mul_int (float_literal (21 / 100)) r = Inr (Finite (rnd (rnd (21 / 100) * of_int r)))"
    using weight_term(1) [OF _ _ assms(1), of "rnd (21 / 100)"] w1
    by (simp add: float_literal_unit)
  have t2: "float_mul_int (float_literal (72 / 100)) g = Inr (Finite (rnd (rnd (72 / 100) * of_int g)))"
    using weight_term(1) [OF _ _ assms(2), of "rnd (72 / 100)"] w2
    by (simp add: float_literal_unit)
  have t3: "float_mul_int (float_literal (7 / 100)) b = Inr (Finite (rnd (rnd (7 / 100) * of_int b)))"
    using weight_term(1) [OF _ _ assms(3), of "rnd (7 / 100)"] w3
    by (simp add: float_literal_unit)
  let ?p1 = "rnd (rnd (21 / 100) * of_int r)" and ?p2 = "rnd (rnd (72 / 100) * of_int g)"
    and ?p3 = "rnd (rnd (7 / 100) * of_int b)"
  have b1: "0 \<le> ?p1" "?p1 \<le> 255" using weight_term(2,3) [OF _ _ assms(1), of "rnd (21 / 100)"] w1 by simp_all
  have b2: "0 \<le> ?p2" "?p2 \<le> 255" using weight_term(2,3) [OF _ _ assms(2), of "rnd (72 / 100)"] w2 by simp_all
  have b3: "0 \<le> ?p3" "?p3 \<le> 255" using weight_term(2,3) [OF _ _ assms(3), of "rnd (7 / 100)"] w3 by simp_all
  have s1: "float_add (Finite ?p1) (Finite ?p2) = Finite (rnd (?p1 + ?p2))"
    using b1 b2 by (intro float_add_small) simp_all
  have "0 \<le> ?p1 + ?p2" "?p1 + ?p2 \<le> of_int 510" using b1 b2 by simp_all
  then have b12: "0 \<le> rnd (?p1 + ?p2)" "rnd (?p1 + ?p2) \<le> 510"
    using rnd_nonneg [of "?p1 + ?p2"] rnd_le_of_int [of "?p1 + ?p2" 510] by simp_all
  have s2: "float_add (Finite (rnd (?p1 + ?p2))) (Finite ?p3) = Finite (rnd (rnd (?p1 + ?p2) + ?p3))"
    using b12 b3 by (intro float_add_small) simp_all
  show ?thesis
    by (simp only: luminosity_def t1 t2 t3 s1 s2 spec_weighted_sum_def sum.case)
qed

lemma spec_weighted_sum_nonneg:
  assumes "channel_ok r" and "channel_ok g" and "channel_ok b"
  shows "0 \<le> spec_weighted_sum r g b"
proof -
  have "0 \<le> rnd (rnd (21 / 100) * of_int r)" "0 \<le> rnd (rnd (72 / 100) * of_int g)"
    "0 \<le> rnd (rnd (7 / 100) * of_int b)"
    using assms rnd_unit(1) [of "21 / 100"] rnd_unit(1) [of "72 / 100"] rnd_unit(1) [of "7 / 100"]
    by (simp_all add: channel_ok_def rnd_nonneg)
  then show ?thesis by (simp add: spec_weighted_sum_def rnd_nonneg)
qed

lemma spec_weighted_sum_mono:
  assumes "0 \<le> r" and "r \<le> r'" and "0 \<le> g" and "g \<le> g'" and "0 \<le> b" and "b \<le> b'"
  shows "spec_weighted_sum r g b \<le> spec_weighted_sum r' g' b'"
proof -
  have w: "0 \<le> rnd (21 / 100)" "0 \<le> rnd (72 / 100)" "0 \<le> rnd (7 / 100)"
    by (simp_all add: rnd_nonneg)
  have p1: "rnd (rnd (21 / 100) * of_int r) \<le> rnd (rnd (21 / 100) * of_int r')"
    using assms(1,2) w(1) by (intro rnd_mono mult_left_mono) simp_all
  have p2: "rnd (rnd (72 / 100) * of_int g) \<le> rnd (rnd (72 / 100) * of_int g')"
    using assms(3,4) w(2) by (intro rnd_mono mult_left_mono) simp_all
  have p3: "rnd (rnd (7 / 100) * of_int b) \<le> rnd (rnd (7 / 100) * of_int b')"
    using assms(5,6) w(3) by (intro rnd_mono mult_left_mono) simp_all
  have n1: "0 \<le> rnd (rnd (21 / 100) * of_int r)" using assms(1) w(1) by (intro rnd_nonneg) simp
  have n2: "0 \<le> rnd (rnd (72 / 100) * of_int g)" using assms(3) w(2) by (intro rnd_nonneg) simp
  have n3: "0 \<le> rnd (rnd (7 / 100) * of_int b)" using assms(5) w(3) by (intro rnd_nonneg) simp
  have s1: "rnd (rnd (rnd (21 / 100) * of_int r) + rnd (rnd (72 / 100) * of_int g))
      \<le> rnd (rnd (rnd (21 / 100) * of_int r') + rnd (rnd (72 / 100) * of_int g'))"
    using p1 p2 n1 n2 by (intro rnd_mono) simp_all
  have n12: "0 \<le> rnd (rnd (rnd (21 / 100) * of_int r) + rnd (rnd (72 / 100) * of_int g))"
    using n1 n2 by (intro rnd_nonneg) simp
  show ?thesis unfolding spec_weighted_sum_def
    using s1 p3 n12 n3 by (intro rnd_mono) simp_all
qed


lemma trunc_mono:
  assumes "x \<le> y"
  shows "trunc x \<le> trunc y"
proof (cases "0 \<le> x")
  case True
  then show ?thesis using assms floor_mono [OF assms] by (simp add: trunc_def)
next
  case False
  then have tx: "trunc x = \<lceil>x\<rceil>" by (simp add: trunc_def)
  show ?thesis
  proof (cases "0 \<le> y")
    case True
    then have "trunc y = \<lfloor>y\<rfloor>" by (simp add: trunc_def)
    moreover have "\<lceil>x\<rceil> \<le> 0" using False by (simp add: ceiling_le_iff)
    moreover have "0 \<le> \<lfloor>y\<rfloor>" using True by simp
    ultimately show ?thesis using tx by linarith
  next
    case False
    then show ?thesis using tx ceiling_mono [OF assms] by (simp add: trunc_def)
  qed
qed

lemma trunc_eqI:
  assumes "0 \<le> n" and "of_int n \<le> x" and "x < of_int n + 1"
  shows "trunc x = n"
proof -
  have "0 \<le> x" using assms(1,2) by (meson of_int_0_le_iff order_trans)
  moreover have "\<lfloor>x\<rfloor> = n" using assms(2,3) by (rule floor_unique)
  ultimately show ?thesis by (simp add: trunc_def)
qed

lemma check_channels_rgb:
  "check_channels [(r, ''r''), (g, ''g''), (b, ''b'')] =
     (if \<not> channel_ok r then Inl (ValueError ''r must be between 0 and 255'')
      else if \<not> channel_ok g then Inl (ValueError ''g must be between 0 and 255'')
      else if \<not> channel_ok b then Inl (ValueError ''b must be between 0 and 255'')
      else Inr ())"
  by (simp add: channel_ok_def)

text \<open>Pure white, rounding by rounding.  The first sum is an exact tie.\<close>

lemma spec_weighted_sum_white: "spec_weighted_sum 255 255 255 = 8972014882652159 / 2 ^ 45"
proof -
  have c1: "rnd (21 / 100) = 7566047373982433 / 2 ^ 55"
    using rnd_eqI [of "- 3" "21 / 100" 7566047373982433] by simp
  have c2: "rnd (72 / 100) = 6485183463413514 / 2 ^ 53"
    using rnd_eqI [of "- 1" "72 / 100" 6485183463413514] by simp
  have c3: "rnd (7 / 100) = 5044031582654956 / 2 ^ 56"
    using rnd_eqI [of "- 4" "7 / 100" 5044031582654956] by simp
  have p1: "rnd (7566047373982433 / 2 ^ 55 * 255) = 7536492501427814 / 2 ^ 47"
    using rnd_eqI [of 5 "7566047373982433 / 2 ^ 55 * 255" 7536492501427814] by simp
  have p2: "rnd (6485183463413514 / 2 ^ 53 * 255) = 6459850715509555 / 2 ^ 45"
    using rnd_eqI [of 7 "6485183463413514 / 2 ^ 53 * 255" 6459850715509555] by simp
  have p3: "rnd (5044031582654956 / 2 ^ 56 * 255) = 5024328334285210 / 2 ^ 48"
    using rnd_eqI [of 4 "5044031582654956 / 2 ^ 56 * 255" 5024328334285210] by simp
  have s1: "rnd (7536492501427814 / 2 ^ 47 + 6459850715509555 / 2 ^ 45) = 8343973840866508 / 2 ^ 45"
    using rnd_tieI [of 7 "7536492501427814 / 2 ^ 47 + 6459850715509555 / 2 ^ 45" 8343973840866508]
    by simp
  have s2: "rnd (8343973840866508 / 2 ^ 45 + 5024328334285210 / 2 ^ 48) = 8972014882652159 / 2 ^ 45"
    using rnd_eqI [of 7 "8343973840866508 / 2 ^ 45 + 5024328334285210 / 2 ^ 48" 8972014882652159]
    by simp
  show ?thesis
    by (simp only: spec_weighted_sum_def of_int_numeral c1 c2 c3 p1 p2 p3 s1 s2)
qed

lemma trunc_white: "trunc (8972014882652159 / 2 ^ 45) = 254"
  by (rule trunc_eqI) simp_all

lemma rgb_to_grayscale_ok:
  assumes "channel_ok r" and "channel_ok g" and "channel_ok b"
  shows "rgb_to_grayscale r g b = Inr (trunc (spec_weighted_sum r g b))"
proof -
  have c: "check_channels [(r, ''r''), (g, ''g''), (b, ''b'')] = Inr ()"
    unfolding check_channels_rgb using assms by simp
  show ?thesis
    unfolding rgb_to_grayscale_def c luminosity_ok [OF assms] by simp
qed

lemma spec_weighted_sum_red: "spec_weighted_sum 255 0 0 = 7536492501427814 / 2 ^ 47"
proof -
  have c1: "rnd (21 / 100) = 7566047373982433 / 2 ^ 55"
    using rnd_eqI [of "- 3" "21 / 100" 7566047373982433] by simp
  have p1: "rnd (7566047373982433 / 2 ^ 55 * 255) = 7536492501427814 / 2 ^ 47"
    using rnd_eqI [of 5 "7566047373982433 / 2 ^ 55 * 255" 7536492501427814] by simp
  have s: "rnd (7536492501427814 / 2 ^ 47) = 7536492501427814 / 2 ^ 47"
    using rnd_eqI [of 5 "7536492501427814 / 2 ^ 47" 7536492501427814] by simp
  show ?thesis
    by (simp only: spec_weighted_sum_def of_int_numeral of_int_0 mult_zero_right rnd_0 add_0_right
        c1 p1 s)
qed

section \<open>The float operations on values in range\<close>

lemma float_of_int_finite:
  assumes "0 \<le> n" and "of_int n < dbl_limit"
  shows "float_of_int n = Inr (Finite (rnd (of_int n)))"
  using assms by (simp add: float_of_int_def round_double_finite)

lemma float_of_int_overflow:
  assumes "dbl_limit \<le> of_int n"
  shows "float_of_int n = Inl (OverflowError ''int too large to convert to float'')"
  using assms by (simp add: float_of_int_def round_double_overflow)

lemma int_truediv_finite:
  assumes "0 < a" and "0 < b" and "of_int a / of_int b < dbl_limit"
  shows "int_truediv a b = Inr (Finite (rnd (of_int a / of_int b)))"
proof -
  have "(0::rat) \<le> of_int a / of_int b" using assms(1,2) by simp
  then have "round_double (of_int a / of_int b) = Finite (rnd (of_int a / of_int b))"
    using assms(3) by (rule round_double_finite)
  then show ?thesis using assms(2) by (simp add: int_truediv_def)
qed

lemma int_truediv_overflow:
  assumes "0 < b" and "dbl_limit \<le> of_int a / of_int b"
  shows "int_truediv a b = Inl (OverflowError ''integer division result too large for a float'')"
  using assms by (simp add: int_truediv_def round_double_overflow)

lemma int_mul_float_unit:
  assumes "0 \<le> n" and "of_int n < dbl_limit" and "0 \<le> s" and "s \<le> 1"
  shows "int_mul_float n (Finite s) = Inr (Finite (rnd (rnd (of_int n) * s)))"
proof -
  have n: "(0::rat) \<le> of_int n" using assms(1) by simp
  have r0: "0 \<le> rnd (of_int n)" using n by (rule rnd_nonneg)
  have r1: "rnd (of_int n) \<le> dbl_max" using n assms(2) by (rule rnd_le_dbl_max)
  have "rnd (of_int n) * s \<le> rnd (of_int n) * 1" using assms(4) r0 by (rule mult_left_mono)
  then have "rnd (of_int n) * s \<le> dbl_max" using r1 by simp
  then have "rnd (of_int n) * s < dbl_limit" by (rule dbl_max_below_limit)
  moreover have "0 \<le> rnd (of_int n) * s" using r0 assms(3) by simp
  ultimately have "round_double (rnd (of_int n) * s) = Finite (rnd (rnd (of_int n) * s))"
    by (intro round_double_finite)
  then show ?thesis using assms(1,2) by (simp add: int_mul_float_def float_of_int_finite)
qed

lemma int_mul_float_overflow:
  assumes "dbl_limit \<le> of_int n"
  shows "int_mul_float n x = Inl (OverflowError ''int too large to convert to float'')"
  using assms by (simp add: int_mul_float_def float_of_int_overflow)

section \<open>The scaling branch of the resize\<close>

lemma spec_scale_eq:
  "spec_scale w h m = rnd (of_int m / of_int (max w h))"
  by (simp add: spec_scale_def max_def)

lemma spec_scale_unit:
  assumes "0 < w" and "0 < h" and "0 < m" and "\<not> (w \<le> m \<and> h \<le> m)"
  shows "0 \<le> spec_scale w h m" and "spec_scale w h m \<le> 1"
    and "(if w > h then int_truediv m w else int_truediv m h) = Inr (Finite (spec_scale w h m))"
proof -
  have d: "0 < max w h" "m < max w h" using assms by auto
  then have "(of_int m :: rat) < of_int (max w h)" by (simp only: of_int_less_iff)
  then have q: "(0::rat) \<le> of_int m / of_int (max w h)" "(of_int m :: rat) / of_int (max w h) \<le> 1"
    using assms(3) d(1) by simp_all
  show "0 \<le> spec_scale w h m" "spec_scale w h m \<le> 1"
    unfolding spec_scale_eq using q by (rule rnd_unit)+
  have "(of_int m :: rat) / of_int (max w h) < dbl_limit"
    using q(2) by (intro small_below_limit) simp
  then have "int_truediv m (max w h) = Inr (Finite (spec_scale w h m))"
    unfolding spec_scale_eq using assms(3) d(1) by (intro int_truediv_finite)
  then show "(if w > h then int_truediv m w else int_truediv m h) = Inr (Finite (spec_scale w h m))"
    by (simp add: max_def split: if_splits)
qed

lemma resize_scaled:
  assumes "0 < w" and "0 < h" and "0 < m" and "\<not> (w \<le> m \<and> h \<le> m)"
    and "of_int w < dbl_limit" and "of_int h < dbl_limit"
  shows "resize_dimensions w h m = Inr (spec_scaled_pair w h m)"
proof -
  note s = spec_scale_unit [OF assms(1-4)]
  have mw: "int_mul_float w (Finite (spec_scale w h m))
      = Inr (Finite (rnd (rnd (of_int w) * spec_scale w h m)))"
    using assms(1,5) s(1,2) by (intro int_mul_float_unit) simp_all
  have mh: "int_mul_float h (Finite (spec_scale w h m))
      = Inr (Finite (rnd (rnd (of_int h) * spec_scale w h m)))"
    using assms(2,6) s(1,2) by (intro int_mul_float_unit) simp_all
  have g: "\<not> (w \<le> 0 \<or> h \<le> 0 \<or> m \<le> 0)" using assms(1-3) by simp
  show ?thesis
    unfolding resize_dimensions_def spec_scaled_pair_def Let_def
    by (simp only: g assms(4) if_False s(3) mw mh sum.case int_of_float.simps)
qed

lemma resize_overflow:
  assumes "0 < w" and "0 < h" and "0 < m" and "\<not> (w \<le> m \<and> h \<le> m)"
    and "\<not> (of_int w < dbl_limit \<and> of_int h < dbl_limit)"
  shows "resize_dimensions w h m = Inl (OverflowError ''int too large to convert to float'')"
proof -
  note s = spec_scale_unit [OF assms(1-4)]
  have g: "\<not> (w \<le> 0 \<or> h \<le> 0 \<or> m \<le> 0)" using assms(1-3) by simp
  show ?thesis
  proof (cases "of_int w < dbl_limit")
    case True
    then have "dbl_limit \<le> of_int h" using assms(5) by simp
    then have mh: "int_mul_float h (Finite (spec_scale w h m))
        = Inl (OverflowError ''int too large to convert to float'')"
      by (rule int_mul_float_overflow)
    have mw: "int_mul_float w (Finite (spec_scale w h m))
        = Inr (Finite (rnd (rnd (of_int w) * spec_scale w h m)))"
      using assms(1) True s(1,2) by (intro int_mul_float_unit) simp_all
    show ?thesis
      unfolding resize_dimensions_def
      by (simp only: g assms(4) if_False s(3) mw mh sum.case int_of_float.simps)
  next
    case False
    then have "dbl_limit \<le> of_int w" by simp
    then have mw: "int_mul_float w (Finite (spec_scale w h m))
        = Inl (OverflowError ''int too large to convert to float'')"
      by (rule int_mul_float_overflow)
    show ?thesis
      unfolding resize_dimensions_def
      by (simp only: g assms(4) if_False s(3) mw sum.case)
  qed
qed

text \<open>Scaling the larger side back: the product lands within one of \<open>max_size\<close>.  First for
  \<open>max_size\<close> below \<open>2^52\<close>, where doubles are spaced by at most a half, then from \<open>2^52\<close> on,
  where the quotient lies in \<open>[1/2, 1)\<close>.\<close>

lemma scale_back:
  assumes "0 < m" and "m < d" and "d \<le> 2 ^ 53" and "m < 2 ^ 52"
  shows "of_int m - 3 / 4 < rnd (of_int d * rnd (of_int m / of_int d))"
    and "rnd (of_int d * rnd (of_int m / of_int d)) < of_int m + 3 / 4"
proof -
  let ?m = "of_int m :: rat" and ?d = "of_int d :: rat"
  let ?x = "?m / ?d"
  let ?s = "rnd ?x"
  have m: "1 \<le> ?m" using assms(1) by simp
  have d: "0 < ?d" using assms(1,2) by simp
  have md: "?m < ?d" using assms(2) by (simp only: of_int_less_iff)
  have "?d \<le> of_int (2 ^ 53)" using assms(3) by (simp only: of_int_le_iff)
  then have d53: "?d \<le> 2 ^ 53" by simp
  have "m \<le> 2 ^ 52 - 1" using assms(4) by simp
  then have "?m \<le> of_int (2 ^ 52 - 1)" by (simp only: of_int_le_iff)
  then have m52: "?m \<le> 2 ^ 52 - 1" by simp
  have x: "0 < ?x" using m d by simp
  then have xn: "?x \<noteq> 0" by (rule less_imp_neq [THEN not_sym])
  have "1 / 2 ^ 53 \<le> 1 / ?d" using d d53 by (simp add: frac_le)
  also have "\<dots> \<le> ?x" using m d by (simp add: divide_right_mono)
  finally have "2 powi (- 53) \<le> ?x" by (simp add: power_int_minus_divide)
  also have "?x < 2 powi (bexp ?x + 1)" using x by (rule bexp_bounds_pos(2))
  finally have "- 53 < bexp ?x + 1" by (rule p2_less_imp)
  then have q: "qexp ?x = bexp ?x - 52" by (simp add: qexp_def)
  have "\<bar>?s - ?x\<bar> \<le> 2 powi (bexp ?x - 53)" using rnd_err [OF xn] by (simp add: q)
  also have "\<dots> = 2 powi (bexp ?x) / 2 ^ 53" by (simp add: power_int_diff)
  also have "\<dots> \<le> ?x / 2 ^ 53"
    using bexp_bounds_pos(1) [OF x] by (intro divide_right_mono) simp_all
  finally have "\<bar>?s - ?x\<bar> \<le> ?x / 2 ^ 53" .
  then have "\<bar>?s - ?x\<bar> * ?d \<le> ?x / 2 ^ 53 * ?d"
    by (rule mult_right_mono) (use d in simp)
  moreover have "\<bar>?s - ?x\<bar> * ?d = \<bar>?d * ?s - ?m\<bar>"
  proof -
    have dx: "?d * ?x = ?m" using d by simp
    have "\<bar>?d * ?s - ?m\<bar> = \<bar>?d * (?s - ?x)\<bar>" by (simp only: right_diff_distrib dx)
    also have "\<dots> = \<bar>?d\<bar> * \<bar>?s - ?x\<bar>" by (rule abs_mult)
    also have "\<dots> = ?d * \<bar>?s - ?x\<bar>" using d by (simp only: abs_of_pos)
    finally show ?thesis by (simp only: mult.commute)
  qed
  moreover have "?x / 2 ^ 53 * ?d = ?m / 2 ^ 53" using d by simp
  ultimately have "\<bar>?d * ?s - ?m\<bar> \<le> ?m / 2 ^ 53" by simp
  also have "\<dots> < 1 / 2" using m52 by simp
  finally have close: "\<bar>?d * ?s - ?m\<bar> < 1 / 2" .
  let ?y = "?d * ?s"
  have y: "0 < ?y" using close m by linarith
  then have yn: "?y \<noteq> 0" by (rule less_imp_neq [THEN not_sym])
  have "2 powi (bexp ?y) \<le> ?y" using y by (rule bexp_bounds_pos(1))
  also have "?y < 2 powi 52"
  proof -
    have "?y < ?m + 1 / 2" using close by linarith
    also have "\<dots> < 2 ^ 52" using m52 by linarith
    finally show ?thesis by simp
  qed
  finally have "bexp ?y < 52" by (rule p2_less_imp)
  then have "qexp ?y - 1 \<le> - 2" by (simp add: qexp_def)
  then have "2 powi (qexp ?y - 1) \<le> (2::rat) powi (- 2)" by (rule p2_le)
  then have "\<bar>rnd ?y - ?y\<bar> \<le> 1 / 4" using rnd_err [OF yn] by simp
  then show "?m - 3 / 4 < rnd ?y" and "rnd ?y < ?m + 3 / 4" using close by linarith+
qed

lemma spec_scaled_pair_landscape: "spec_scaled_pair 2000 1000 1000 = (1000, 500)"
proof -
  have s: "spec_scale 2000 1000 1000 = 1 / 2" by (simp add: spec_scale_def rnd_half)
  have a: "rnd (of_int 2000) = 2000" "rnd (of_int 1000) = 1000"
    using rnd_of_int [of 2000] rnd_of_int [of 1000] by simp_all
  have b: "rnd 1000 = 1000" "rnd 500 = 500"
    using rnd_of_int [of 1000] rnd_of_int [of 500] by simp_all
  have t: "trunc 1000 = 1000" "trunc 500 = 500" by (simp_all add: trunc_def)
  show ?thesis unfolding spec_scaled_pair_def s Let_def a by (simp add: b t)
qed

lemma scale_back_large:
  assumes "2 ^ 52 \<le> m" and "m < d" and "d \<le> 2 ^ 53"
  shows "of_int m - 1 \<le> rnd (of_int d * rnd (of_int m / of_int d))"
    and "rnd (of_int d * rnd (of_int m / of_int d)) < of_int m + 1"
proof -
  let ?m = "of_int m :: rat" and ?d = "of_int d :: rat"
  let ?x = "?m / ?d"
  let ?s = "rnd ?x"
  let ?y = "?d * ?s"
  have "(of_int (2 ^ 52) :: rat) \<le> ?m" using assms(1) by (simp only: of_int_le_iff)
  then have m52: "2 ^ 52 \<le> ?m" by simp
  have md: "?m < ?d" using assms(2) by (simp only: of_int_less_iff)
  have m52': "4503599627370496 \<le> ?m" using m52 by simp
  have m0: "0 < ?m" using m52 by (rule less_le_trans [rotated]) simp
  have d: "0 < ?d" using m0 md by (rule less_trans)
  have "?d \<le> of_int (2 ^ 53)" using assms(3) by (simp only: of_int_le_iff)
  then have d53: "?d \<le> 2 ^ 53" by simp
  have d53': "?d \<le> 9007199254740992" using d53 by simp
  have m1: "0 \<le> m - 1" "m - 1 \<le> 2 ^ 53" using assms by simp_all
  have "?d * (1 / 2) \<le> 2 ^ 53 * (1 / 2)" using d53 by (intro mult_right_mono) simp_all
  also have "\<dots> \<le> ?m" using m52 by simp
  finally have "1 / 2 \<le> ?x" using d by (simp add: pos_le_divide_eq mult.commute)
  then have xlo: "2 powi (- 1) \<le> ?x" by (simp add: power_int_minus_divide)
  have "?x < 1" using md d by simp
  then have xhi: "?x < 2 powi (- 1 + 1)" by simp
  have x: "0 < ?x" using d m0 by (rule divide_pos_pos [rotated])
  then have xn: "?x \<noteq> 0" by (rule less_imp_neq [THEN not_sym])
  have "bexp ?x = - 1" using x xlo xhi by (rule bexp_unique_pos)
  then have q: "qexp ?x = - 53" by (simp add: qexp_def)
  have both: "?m - 1 \<le> rnd ?y \<and> rnd ?y < ?m + 1"
  proof (cases "d = 2 ^ 53")
    case True
    then have de: "?d = 2 ^ 53" by simp
    have "?x / 2 powi (- 53) = ?m" by (simp add: de power_int_minus_divide)
    then have "round_half_even (?x / 2 powi (qexp ?x)) = m"
      unfolding q by (simp only: rhe_of_int)
    then have "?s = ?m * 2 powi (- 53)" unfolding rnd_eq [OF xn] q by simp
    then have "?y = ?m" by (simp add: de power_int_minus_divide)
    moreover have "rnd ?m = ?m" using assms by (intro rnd_of_int) simp_all
    ultimately show ?thesis by simp
  next
    case False
    then have "d \<le> 2 ^ 53 - 1" using assms(3) by simp
    then have "?d \<le> of_int (2 ^ 53 - 1)" by (simp only: of_int_le_iff)
    then have dlt: "?d \<le> 2 ^ 53 - 1" by simp
    have "\<bar>?s - ?x\<bar> \<le> 2 powi (- 54)" using rnd_err [OF xn] by (simp add: q)
    then have e: "\<bar>?s - ?x\<bar> \<le> 1 / 2 ^ 54" by (simp add: power_int_minus_divide)
    have dx: "?d * ?x = ?m" using d by simp
    have "\<bar>?y - ?m\<bar> = \<bar>?d * (?s - ?x)\<bar>" by (simp only: right_diff_distrib dx)
    also have "\<dots> = \<bar>?d\<bar> * \<bar>?s - ?x\<bar>" by (rule abs_mult)
    also have "\<dots> = ?d * \<bar>?s - ?x\<bar>" using d by (simp only: abs_of_pos)
    also have "\<dots> \<le> (2 ^ 53 - 1) * (1 / 2 ^ 54)"
      using dlt e d by (intro mult_mono) simp_all
    also have "\<dots> < 1 / 2" by simp
    finally have close: "\<bar>?y - ?m\<bar> < 1 / 2" .
    have y: "0 < ?y" using close m52' by linarith
    then have yn: "?y \<noteq> 0" by (rule less_imp_neq [THEN not_sym])
    have "(0::rat) \<le> of_int (m - 1)" using m1(1) by (simp only: of_int_0_le_iff)
    moreover have "?m - 1 \<le> ?y" using close by linarith
    then have "of_int (m - 1) \<le> ?y" by simp
    ultimately have "rnd (of_int (m - 1)) \<le> rnd ?y" by (rule rnd_mono)
    moreover have "rnd (of_int (m - 1)) = of_int (m - 1)" using m1 by (rule rnd_of_int)
    ultimately have lo: "?m - 1 \<le> rnd ?y" by simp
    have "?m + 1 \<le> ?d" using assms(2) by (simp flip: of_int_le_iff)
    then have "?y < 9007199254740992" using close d53' by linarith
    then have "?y < 2 powi 53" by simp
    with bexp_bounds_pos(1) [OF y] have "2 powi (bexp ?y) < (2::rat) powi 53" by (rule le_less_trans)
    then have "bexp ?y < 53" by (rule p2_less_imp)
    then have "qexp ?y - 1 \<le> - 1" by (simp add: qexp_def)
    then have "2 powi (qexp ?y - 1) \<le> (2::rat) powi (- 1)" by (rule p2_le)
    then have "\<bar>rnd ?y - ?y\<bar> \<le> 1 / 2" using rnd_err [OF yn] by simp
    then have "rnd ?y < ?m + 1" using close by linarith
    then show ?thesis using lo by simp
  qed
  from both show "?m - 1 \<le> rnd ?y" ..
  from both show "rnd ?y < ?m + 1" ..
qed

lemma scale_back_any:
  assumes "0 < m" and "m < d" and "d \<le> 2 ^ 53"
  shows "of_int m - 1 \<le> rnd (of_int d * rnd (of_int m / of_int d))"
    and "rnd (of_int d * rnd (of_int m / of_int d)) < of_int m + 1"
proof -
  have "of_int m - 1 \<le> rnd (of_int d * rnd (of_int m / of_int d))
      \<and> rnd (of_int d * rnd (of_int m / of_int d)) < of_int m + 1"
  proof (cases "m < 2 ^ 52")
    case True
    show ?thesis using scale_back [OF assms(1,2,3) True] by linarith
  next
    case False
    then have "2 ^ 52 \<le> m" by simp
    then show ?thesis using scale_back_large [OF _ assms(2,3)] by simp
  qed
  then show "of_int m - 1 \<le> rnd (of_int d * rnd (of_int m / of_int d))"
    and "rnd (of_int d * rnd (of_int m / of_int d)) < of_int m + 1" by simp_all
qed

lemma trunc_within_one:
  assumes "0 < m" and "of_int m - 1 \<le> x" and "x < of_int m + 1"
  shows "trunc x = m \<or> trunc x = m - 1"
proof -
  have "(1::rat) \<le> of_int m" using assms(1) by simp
  then have "0 \<le> x" using assms(2) by linarith
  then have t: "trunc x = \<lfloor>x\<rfloor>" by (simp add: trunc_def)
  have "of_int (m - 1) \<le> x" using assms(2) by simp
  then have "m - 1 \<le> \<lfloor>x\<rfloor>" by (simp only: le_floor_iff)
  moreover have "x < of_int (m + 1)" using assms(3) by simp
  then have "\<lfloor>x\<rfloor> < m + 1" by (simp only: floor_less_iff)
  ultimately show ?thesis using t by auto
qed

lemma resize_fit:
  assumes "0 < h" and "0 < m" and "h \<le> w" and "m < w" and "w \<le> 2 ^ 53"
    and "s = rnd (of_int m / of_int w)"
  shows "trunc (rnd (rnd (of_int w) * s)) = m \<or> trunc (rnd (rnd (of_int w) * s)) = m - 1"
    and "trunc (rnd (rnd (of_int h) * s)) \<le> trunc (rnd (rnd (of_int w) * s))"
proof -
  have w: "0 < w" using assms(1,3) by simp
  have rw: "rnd (of_int w) = of_int w" using w assms(5) by (intro rnd_of_int) simp_all
  have rh: "rnd (of_int h) = of_int h" using assms(1,3,5) by (intro rnd_of_int) simp_all
  have "(0::rat) \<le> of_int m / of_int w" using assms(2) w by simp
  then have s0: "0 \<le> s" unfolding assms(6) by (rule rnd_nonneg)
  show "trunc (rnd (rnd (of_int w) * s)) = m \<or> trunc (rnd (rnd (of_int w) * s)) = m - 1"
    unfolding rw assms(6)
    using assms(2) scale_back_any [OF assms(2,4,5)] by (rule trunc_within_one)
  have hw: "(of_int h :: rat) \<le> of_int w" using assms(3) by (simp only: of_int_le_iff)
  have "(0::rat) \<le> of_int h * s" using assms(1) s0 by simp
  moreover have "of_int h * s \<le> of_int w * s" using hw s0 by (rule mult_right_mono)
  ultimately have "rnd (of_int h * s) \<le> rnd (of_int w * s)" by (rule rnd_mono)
  then show "trunc (rnd (rnd (of_int h) * s)) \<le> trunc (rnd (rnd (of_int w) * s))"
    unfolding rw rh by (rule trunc_mono)
qed

section \<open>The claims\<close>

subsection \<open>Resize-to-fit: the value returned\<close>

text \<open>
  Claim C1, as amended.  For all integers \<open>width > 0\<close>, \<open>height > 0\<close>, \<open>max_size > 0\<close>:
  \<open>resize_dimensions\<close> returns \<open>(width, height)\<close> unchanged when both are at most
  \<open>max_size\<close>.  Otherwise, when \<open>width\<close> and \<open>height\<close> are below \<open>2^1024 - 2^970\<close> (the
  integers that convert to a double), it computes \<open>scale = max_size / width\<close> when
  \<open>width > height\<close> and \<open>scale = max_size / height\<close> otherwise, and returns
  \<open>(int(width * scale), int(height * scale))\<close>, truncated toward zero.  When \<open>width\<close> or
  \<open>height\<close> is not below that bound, the conversion raises OverflowError and nothing is
  returned.
\<close>

theorem resize_dimensions_spec:
  assumes "0 < width" and "0 < height" and "0 < max_size"
  shows "resize_dimensions width height max_size =
     (if width \<le> max_size \<and> height \<le> max_size then Inr (width, height)
      else if of_int width < dbl_limit \<and> of_int height < dbl_limit
      then Inr (spec_scaled_pair width height max_size)
      else Inl (OverflowError ''int too large to convert to float''))"
proof (cases "width \<le> max_size \<and> height \<le> max_size")
  case True
  then show ?thesis using assms by (simp add: resize_dimensions_def)
next
  case False
  show ?thesis
  proof (cases "of_int width < dbl_limit \<and> of_int height < dbl_limit")
    case True
    then have "resize_dimensions width height max_size = Inr (spec_scaled_pair width height max_size)"
      using assms False by (intro resize_scaled) simp_all
    then show ?thesis by (simp only: False True if_False if_True simp_thms)
  next
    case nf: False
    have "resize_dimensions width height max_size
        = Inl (OverflowError ''int too large to convert to float'')"
      using assms False nf by (rule resize_overflow)
    then show ?thesis by (simp only: False nf if_False simp_thms)
  qed
qed

text \<open>The landscape example of the tests, \<open>2000 \<times> 1000\<close> into \<open>1000\<close>.\<close>

theorem resize_dimensions_spec_witness: "resize_dimensions 2000 1000 1000 = Inr (1000, 500)"
  using resize_dimensions_spec [of 2000 1000 1000]
  by (simp add: spec_scaled_pair_landscape dbl_limit_def)

text \<open>Without the bound the claim fails: for \<open>width = 2^1024\<close> the scaling branch is taken,
  \<open>scale\<close> is \<open>0.5\<close>, and \<^verbatim>\<open>width * scale\<close> raises.\<close>

theorem resize_dimensions_overflow_counterexample:
  "resize_dimensions (2 ^ 1024) 1 (2 ^ 1023)
     = Inl (OverflowError ''int too large to convert to float'')"
  by (rule resize_overflow) (simp_all add: dbl_limit_def)

subsection \<open>Grayscale: the value returned\<close>

text \<open>
  Claim C2.  For all integers \<open>r\<close>, \<open>g\<close>, \<open>b\<close> in \<open>[0, 255]\<close>, \<open>rgb_to_grayscale\<close> returns
  exactly \<^verbatim>\<open>int(0.21*r + 0.72*g + 0.07*b)\<close>: the floating-point weighted sum with the fixed
  weights, truncated toward zero.  No error and no infinity or NaN arises on the way.
\<close>

theorem rgb_to_grayscale_value:
  assumes "0 \<le> r" and "r \<le> 255" and "0 \<le> g" and "g \<le> 255" and "0 \<le> b" and "b \<le> 255"
  shows "rgb_to_grayscale r g b = Inr (trunc (spec_weighted_sum r g b))"
  using assms by (intro rgb_to_grayscale_ok) (simp_all add: channel_ok_def)

text \<open>Pure red: \<^verbatim>\<open>int(0.21 * 255)\<close> is 53.\<close>

theorem rgb_to_grayscale_value_witness: "rgb_to_grayscale 255 0 0 = Inr 53"
proof -
  have "trunc (7536492501427814 / 2 ^ 47) = 53" by (rule trunc_eqI) simp_all
  then show ?thesis using rgb_to_grayscale_value [of 255 0 0] by (simp add: spec_weighted_sum_red)
qed

subsection \<open>Aspect ratio\<close>

text \<open>
  Claim C3, as amended.  For all integers \<open>width\<close> and \<open>height\<close>, \<open>calculate_aspect_ratio\<close>
  raises ValueError if and only if \<open>width \<le> 0\<close> or \<open>height \<le> 0\<close>, and then the quotient plays
  no part in the outcome.  Otherwise it returns the double nearest to \<open>width / height\<close> when
  that quotient is below \<open>2^1024 - 2^970\<close>, and raises OverflowError when it is not.
\<close>

theorem calculate_aspect_ratio_spec:
  "calculate_aspect_ratio width height =
     (if width \<le> 0 \<or> height \<le> 0
      then Inl (ValueError ''Width and height must be positive integers'')
      else if of_int width / of_int height < dbl_limit
      then Inr (Finite (rnd (of_int width / of_int height)))
      else Inl (OverflowError ''integer division result too large for a float''))
   \<and> ((\<exists>msg. calculate_aspect_ratio width height = Inl (ValueError msg))
        = (width \<le> 0 \<or> height \<le> 0))"
proof -
  have eq: "calculate_aspect_ratio width height =
     (if width \<le> 0 \<or> height \<le> 0
      then Inl (ValueError ''Width and height must be positive integers'')
      else if of_int width / of_int height < dbl_limit
      then Inr (Finite (rnd (of_int width / of_int height)))
      else Inl (OverflowError ''integer division result too large for a float''))"
    by (simp add: calculate_aspect_ratio_def int_truediv_finite int_truediv_overflow not_less not_le)
  show ?thesis
  proof (rule conjI [OF eq])
    show "(\<exists>msg. calculate_aspect_ratio width height = Inl (ValueError msg))
        = (width \<le> 0 \<or> height \<le> 0)"
      unfolding eq by auto
  qed
qed

text \<open>Without the bound the claim fails: \<open>2^1024 / 1\<close> is no double, and the division
  raises instead of returning.\<close>

theorem calculate_aspect_ratio_overflow_counterexample:
  "calculate_aspect_ratio (2 ^ 1024) 1
     = Inl (OverflowError ''integer division result too large for a float'')"
  by (simp add: calculate_aspect_ratio_def int_truediv_overflow dbl_limit_def)

subsection \<open>Resolution validator\<close>

text \<open>
  Claim C4.  For all integers \<open>width\<close>, \<open>height\<close> and all optional minima (zero and
  negative values included), \<open>is_valid_resolution\<close> returns the boolean
  \<open>width \<ge> min_width \<and> height \<ge> min_height\<close>, where a minimum that is left out is 1; the
  outcome is always a returned value, never an error.
\<close>

theorem is_valid_resolution_spec:
  "is_valid_resolution width height mw mh =
     Inr (width \<ge> (case mw of None \<Rightarrow> 1 | Some v \<Rightarrow> v) \<and>
          height \<ge> (case mh of None \<Rightarrow> 1 | Some v \<Rightarrow> v))
   \<and> is_valid_resolution width height None None = Inr (width \<ge> 1 \<and> height \<ge> 1)
   \<and> is_valid_resolution width height (Some min_width) (Some min_height)
       = Inr (width \<ge> min_width \<and> height \<ge> min_height)
   \<and> (\<forall>e. is_valid_resolution width height mw mh \<noteq> Inl e)"
  by (simp add: is_valid_resolution_def)

subsection \<open>Resize-to-fit: the bound on the scaled sides\<close>

text \<open>
  Claim C5, as amended.  For all integers \<open>width > 0\<close>, \<open>height > 0\<close>, \<open>max_size > 0\<close> with
  \<open>width \<le> 2^53\<close> and \<open>height \<le> 2^53\<close> (the integers a double holds exactly), where the
  scaling branch is taken (\<open>width > max_size\<close> or \<open>height > max_size\<close>): a pair is returned,
  its larger component is \<open>max_size\<close> or \<open>max_size - 1\<close>, and its smaller component is at
  most \<open>max_size\<close>.
\<close>

theorem resize_dimensions_fit:
  assumes "0 < width" and "0 < height" and "0 < max_size"
    and "max_size < width \<or> max_size < height"
    and "width \<le> 2 ^ 53" and "height \<le> 2 ^ 53"
  shows "\<exists>new_width new_height.
           resize_dimensions width height max_size = Inr (new_width, new_height)
           \<and> (max new_width new_height = max_size \<or> max new_width new_height = max_size - 1)
           \<and> min new_width new_height \<le> max_size"
proof -
  have ns: "\<not> (width \<le> max_size \<and> height \<le> max_size)" using assms(4) by auto
  have "(of_int width :: rat) \<le> of_int (2 ^ 53)" "(of_int height :: rat) \<le> of_int (2 ^ 53)"
    using assms(5,6) by (simp_all only: of_int_le_iff)
  then have "(of_int width :: rat) < dbl_limit" "(of_int height :: rat) < dbl_limit"
    by (simp_all add: small_below_limit)
  then have r: "resize_dimensions width height max_size = Inr (spec_scaled_pair width height max_size)"
    using assms(1-3) ns by (intro resize_scaled)
  let ?s = "spec_scale width height max_size"
  let ?nw = "trunc (rnd (rnd (of_int width) * ?s))"
  let ?nh = "trunc (rnd (rnd (of_int height) * ?s))"
  have p: "spec_scaled_pair width height max_size = (?nw, ?nh)" by (simp add: spec_scaled_pair_def Let_def)
  have "(max ?nw ?nh = max_size \<or> max ?nw ?nh = max_size - 1) \<and> min ?nw ?nh \<le> max_size"
  proof (cases "width > height")
    case True
    then have s: "?s = rnd (of_int max_size / of_int width)" by (simp add: spec_scale_def)
    have mw: "max_size < width" using assms(4) True by auto
    have hw: "height \<le> width" using True by simp
    note f = resize_fit [OF assms(2,3) hw mw assms(5) s]
    from f show ?thesis by (auto simp add: max_def min_def)
  next
    case False
    then have s: "?s = rnd (of_int max_size / of_int height)" by (simp add: spec_scale_def)
    have mh: "max_size < height" using assms(4) False by auto
    have wh: "width \<le> height" using False by simp
    note f = resize_fit [OF assms(1,3) wh mh assms(6) s]
    from f show ?thesis by (auto simp add: max_def min_def)
  qed
  then show ?thesis using r p by auto
qed

theorem resize_dimensions_fit_witness:
  "\<exists>new_width new_height.
     resize_dimensions 49 49 1 = Inr (new_width, new_height)
     \<and> (max new_width new_height = 1 \<or> max new_width new_height = 1 - 1)
     \<and> min new_width new_height \<le> 1"
  using resize_dimensions_fit [of 49 49 1] by simp

text \<open>Without the bound the claim fails: \<open>(2^60 - 1) / 2^60\<close> rounds to \<open>1.0\<close>, and the
  width comes back as \<open>2^60\<close>, one more than \<open>max_size\<close>.\<close>

theorem resize_dimensions_fit_counterexample:
  "resize_dimensions (2 ^ 60) 1 (2 ^ 60 - 1) = Inr (2 ^ 60, 1) \<and> \<not> ((2::int) ^ 60 \<le> 2 ^ 60 - 1)"
proof -
  have s: "spec_scale 1152921504606846976 1 1152921504606846975 = 1"
    using rnd_eqI [of "- 1" "1152921504606846975 / 1152921504606846976" "2 ^ 53"]
    by (simp add: spec_scale_def)
  have a: "rnd 1152921504606846976 = 1152921504606846976"
    using rnd_eqI [of 60 "2 ^ 60" "2 ^ 52"] by simp
  have b: "rnd 1 = 1" using rnd_of_int [of 1] by simp
  have t: "trunc 1152921504606846976 = 1152921504606846976" "trunc 1 = 1"
    by (simp_all add: trunc_def)
  have "spec_scaled_pair 1152921504606846976 1 1152921504606846975 = (1152921504606846976, 1)"
    unfolding spec_scaled_pair_def s Let_def by (simp add: a b t)
  moreover have "resize_dimensions 1152921504606846976 1 1152921504606846975
      = Inr (spec_scaled_pair 1152921504606846976 1 1152921504606846975)"
    by (rule resize_scaled) (simp_all add: dbl_limit_def)
  ultimately show ?thesis by simp
qed

subsection \<open>Grayscale: the output range\<close>

text \<open>
  Claim C6.  For all integers \<open>r\<close>, \<open>g\<close>, \<open>b\<close> in \<open>[0, 255]\<close>, the output of
  \<open>rgb_to_grayscale\<close> lies between 0 and 254 inclusive, and it is the floor of the weighted
  sum \<open>s\<close> (\<open>v \<le> s < v + 1\<close>): never rounded up and never clamped.  In particular
  \<open>rgb_to_grayscale 255 255 255\<close> is 254, not 255.
\<close>

theorem rgb_to_grayscale_range:
  assumes "0 \<le> r" and "r \<le> 255" and "0 \<le> g" and "g \<le> 255" and "0 \<le> b" and "b \<le> 255"
  shows "(\<exists>v s. rgb_to_grayscale r g b = Inr v \<and> 0 \<le> v \<and> v \<le> 254
            \<and> luminosity r g b = Inr (Finite s) \<and> of_int v \<le> s \<and> s < of_int v + 1)
         \<and> rgb_to_grayscale 255 255 255 = Inr 254"
proof -
  have ok: "channel_ok r" "channel_ok g" "channel_ok b" using assms by (simp_all add: channel_ok_def)
  have ok255: "channel_ok 255" by (simp add: channel_ok_def)
  let ?s = "spec_weighted_sum r g b"
  have s0: "0 \<le> ?s" using ok by (rule spec_weighted_sum_nonneg)
  have "?s \<le> spec_weighted_sum 255 255 255" using assms by (intro spec_weighted_sum_mono)
  then have "trunc ?s \<le> trunc (spec_weighted_sum 255 255 255)" by (rule trunc_mono)
  then have hi: "trunc ?s \<le> 254" by (simp only: spec_weighted_sum_white trunc_white)
  have t: "trunc ?s = \<lfloor>?s\<rfloor>" using s0 by (simp add: trunc_def)
  have lo: "0 \<le> trunc ?s" using s0 by (simp add: t)
  have fl: "of_int (trunc ?s) \<le> ?s" "?s < of_int (trunc ?s) + 1" unfolding t by linarith+
  have "rgb_to_grayscale r g b = Inr (trunc ?s)" using ok by (rule rgb_to_grayscale_ok)
  moreover have "luminosity r g b = Inr (Finite ?s)" using ok by (rule luminosity_ok)
  ultimately have "\<exists>v s. rgb_to_grayscale r g b = Inr v \<and> 0 \<le> v \<and> v \<le> 254
      \<and> luminosity r g b = Inr (Finite s) \<and> of_int v \<le> s \<and> s < of_int v + 1"
    using lo hi fl by blast
  moreover have "rgb_to_grayscale 255 255 255 = Inr 254"
    using rgb_to_grayscale_ok [OF ok255 ok255 ok255]
    by (simp only: spec_weighted_sum_white trunc_white)
  ultimately show ?thesis by (rule conjI)
qed

theorem rgb_to_grayscale_range_witness:
  "(\<exists>v s. rgb_to_grayscale 0 0 0 = Inr v \<and> 0 \<le> v \<and> v \<le> 254
            \<and> luminosity 0 0 0 = Inr (Finite s) \<and> of_int v \<le> s \<and> s < of_int v + 1)
         \<and> rgb_to_grayscale 255 255 255 = Inr 254"
  using rgb_to_grayscale_range [of 0 0 0] by simp

subsection \<open>Grayscale: the errors\<close>

text \<open>
  Claim C7.  For all integers \<open>r\<close>, \<open>g\<close>, \<open>b\<close>, \<open>rgb_to_grayscale\<close> raises ValueError if and
  only if at least one channel lies outside \<open>[0, 255]\<close>.  The message names the channel, and
  with several channels out of range it names the first in the order \<open>r\<close>, \<open>g\<close>, \<open>b\<close>; the
  weighted sum plays no part in that outcome.
\<close>

theorem rgb_to_grayscale_errors:
  "rgb_to_grayscale r g b =
     (if r < 0 \<or> 255 < r then Inl (ValueError ''r must be between 0 and 255'')
      else if g < 0 \<or> 255 < g then Inl (ValueError ''g must be between 0 and 255'')
      else if b < 0 \<or> 255 < b then Inl (ValueError ''b must be between 0 and 255'')
      else Inr (trunc (spec_weighted_sum r g b)))
   \<and> ((\<exists>msg. rgb_to_grayscale r g b = Inl (ValueError msg))
        = (r < 0 \<or> 255 < r \<or> g < 0 \<or> 255 < g \<or> b < 0 \<or> 255 < b))"
proof -
  have eq: "rgb_to_grayscale r g b =
     (if r < 0 \<or> 255 < r then Inl (ValueError ''r must be between 0 and 255'')
      else if g < 0 \<or> 255 < g then Inl (ValueError ''g must be between 0 and 255'')
      else if b < 0 \<or> 255 < b then Inl (ValueError ''b must be between 0 and 255'')
      else Inr (trunc (spec_weighted_sum r g b)))"
  proof (cases "channel_ok r \<and> channel_ok g \<and> channel_ok b")
    case True
    then have "rgb_to_grayscale r g b = Inr (trunc (spec_weighted_sum r g b))"
      by (intro rgb_to_grayscale_ok) simp_all
    then show ?thesis using True by (auto simp add: channel_ok_def)
  next
    case False
    then show ?thesis
      unfolding rgb_to_grayscale_def check_channels_rgb by (auto simp add: channel_ok_def)
  qed
  show ?thesis
  proof (rule conjI [OF eq])
    show "(\<exists>msg. rgb_to_grayscale r g b = Inl (ValueError msg))
        = (r < 0 \<or> 255 < r \<or> g < 0 \<or> 255 < g \<or> b < 0 \<or> 255 < b)"
      unfolding eq by auto
  qed
qed

subsection \<open>Resize-to-fit: positivity of the result\<close>


text \<open>A square source scaled to \<open>max_size = 1\<close> loses both sides: \<^verbatim>\<open>49 * (1 / 49)\<close> is
  just below one.\<close>

lemma resize_dimensions_square_to_zero: "resize_dimensions 49 49 1 = Inr (0, 0)"
proof -
  have s: "spec_scale 49 49 1 = rnd (1 / 49)" by (simp add: spec_scale_def)
  have a: "rnd (of_int 49) = 49" using rnd_of_int [of 49] by simp
  have t: "trunc ((2 ^ 53 - 1) / 2 ^ 53) = 0" by (rule trunc_eqI) simp_all
  have "spec_scaled_pair 49 49 1 = (0, 0)"
    unfolding spec_scaled_pair_def s Let_def a forty_nine_times_49th t ..
  moreover have "resize_dimensions 49 49 1 = Inr (spec_scaled_pair 49 49 1)"
    by (rule resize_scaled) (simp_all add: dbl_limit_def)
  ultimately show ?thesis by simp
qed

subsection \<open>Resize-to-fit: no upscaling\<close>




subsection \<open>Grayscale: monotonicity\<close>

text \<open>
  Claim C10.  \<open>rgb_to_grayscale\<close> is monotone nondecreasing in the channels: for channels
  in \<open>[0, 255]\<close> with \<open>r \<le> r'\<close>, \<open>g \<le> g'\<close> and \<open>b \<le> b'\<close>, both calls return and
  \<open>rgb_to_grayscale r g b \<le> rgb_to_grayscale r' g' b'\<close>.  Raising a single channel is the case
  where the other two are equal.
\<close>

theorem rgb_to_grayscale_monotone:
  assumes "0 \<le> r" and "r \<le> r'" and "r' \<le> 255"
    and "0 \<le> g" and "g \<le> g'" and "g' \<le> 255"
    and "0 \<le> b" and "b \<le> b'" and "b' \<le> 255"
  shows "\<exists>v v'. rgb_to_grayscale r g b = Inr v \<and> rgb_to_grayscale r' g' b' = Inr v' \<and> v \<le> v'"
proof -
  have ok: "channel_ok r" "channel_ok g" "channel_ok b" "channel_ok r'" "channel_ok g'" "channel_ok b'"
    using assms by (simp_all add: channel_ok_def)
  have "spec_weighted_sum r g b \<le> spec_weighted_sum r' g' b'"
    using assms by (intro spec_weighted_sum_mono)
  then have "trunc (spec_weighted_sum r g b) \<le> trunc (spec_weighted_sum r' g' b')" by (rule trunc_mono)
  moreover have "rgb_to_grayscale r g b = Inr (trunc (spec_weighted_sum r g b))"
    using ok(1-3) by (rule rgb_to_grayscale_ok)
  moreover have "rgb_to_grayscale r' g' b' = Inr (trunc (spec_weighted_sum r' g' b'))"
    using ok(4-6) by (rule rgb_to_grayscale_ok)
  ultimately show ?thesis by blast
qed

theorem rgb_to_grayscale_monotone_witness:
  "\<exists>v v'. rgb_to_grayscale 10 20 30 = Inr v \<and> rgb_to_grayscale 200 20 30 = Inr v' \<and> v \<le> v'"
  using rgb_to_grayscale_monotone [of 10 200 20 20 30 30] by simp

end
